theory Spec2Isabelle
  imports Main "HOL-Library.Multiset"
begin

section \<open>Data model of \<open>src/App.tsx\<close>\<close>

text \<open>
  The values of the bars are JavaScript numbers.  The application only ever feeds
  integers (\<open>INITIAL_ARRAY\<close>, and \<open>Math.floor(Math.random() * 90) + 10\<close>), so a
  number is modelled as an integer; the one further inhabitant of the type \<open>number\<close>
  kept in the model is \<open>NaN\<close>, the value a malformed entry of a \<open>number[]\<close> has.
  \<open>js_le\<close> is the operator \<open><=\<close>: every comparison with \<open>NaN\<close> is false.
  An array is a list: every index below its length holds an element (no holes).
\<close>

datatype number = Num int | NaN

fun js_le :: "number \<Rightarrow> number \<Rightarrow> bool" where
  "js_le (Num a) (Num b) = (a \<le> b)"
| "js_le _ _ = False"

datatype BarState = Default | Pivot | Comparing | Sorted | Active

record ArrayBar =
  "value" :: number
  state :: BarState

record Step =
  array :: "ArrayBar list"
  pivotIndex :: int
  comparing :: "int list"
  activeLineNumber :: nat
  description :: string
  partitionInfo :: string

text \<open>The only exception the engine can raise: reading \<open>.value\<close> of \<open>undefined\<close>.\<close>

datatype error = TypeError

text \<open>
  The mutable state of one run of \<open>generateSteps\<close>: the working array (\<open>arrayBars\<close>,
  which every call of \<open>quickSort\<close> receives as \<open>arr\<close>), the list \<open>steps\<close> and the
  counter \<open>partitionCount\<close>.
\<close>

record Run =
  arr :: "ArrayBar list"
  steps :: "Step list"
  partitionCount :: nat

section \<open>Template literals\<close>

text \<open>
  \<open>`${n}`\<close> for an integer-valued number \<open>n\<close>.  Up to \<open>Number.MAX_SAFE_INTEGER\<close>
  (\<open>2^53 - 1\<close>) in magnitude it is the decimal digits, with a leading \<open>-\<close> below zero.
  Beyond that JavaScript prints the shortest digits that round-trip, and exponent notation
  from \<open>1e21\<close>; that rendering is not modelled, and \<open>int_str\<close> is left unspecified there.
\<close>

fun nat_str :: "nat \<Rightarrow> string" where
  "nat_str n = (if n < 10 then [char_of (48 + n)]
                else nat_str (n div 10) @ [char_of (48 + n mod 10)])"

declare nat_str.simps [simp del]

definition int_str :: "int \<Rightarrow> string" where
  "int_str k =
     (if - 9007199254740991 \<le> k \<and> k \<le> 9007199254740991
      then (if k < 0 then ''-'' @ nat_str (nat (- k)) else nat_str (nat k))
      else undefined)"

fun number_str :: "number \<Rightarrow> string" where
  "number_str (Num k) = int_str k"
| "number_str NaN = ''NaN''"

section \<open>Array primitives\<close>

text \<open>\<open>arr[k].value\<close> needs \<open>arr[k]\<close> to be an element: out of range it is
  \<open>undefined\<close> and the property access throws.\<close>

definition bar_at :: "ArrayBar list \<Rightarrow> int \<Rightarrow> error + ArrayBar" where
  "bar_at a k = (if 0 \<le> k \<and> k < int (length a) then Inr (a ! nat k) else Inl TypeError)"

text \<open>\<open>[arr[i], arr[j]] = [arr[j], arr[i]]\<close>, for indices inside the array.\<close>

definition swap :: "ArrayBar list \<Rightarrow> int \<Rightarrow> int \<Rightarrow> ArrayBar list" where
  "swap a i j = (a[nat i := a ! nat j])[nat j := a ! nat i]"

text \<open>\<open>arr.map((bar, idx) => ({...bar, state: f idx}))\<close>\<close>

definition map_state :: "(int \<Rightarrow> BarState) \<Rightarrow> ArrayBar list \<Rightarrow> ArrayBar list" where
  "map_state f a = map (\<lambda>(idx, bar). bar\<lparr>state := f (int idx)\<rparr>) (enumerate 0 a)"

definition push :: "Step \<Rightarrow> Run \<Rightarrow> Run" where
  "push st s = s\<lparr>steps := steps s @ [st]\<rparr>"

section \<open>The snapshots\<close>

definition initial_step :: "ArrayBar list \<Rightarrow> Step" where
  "initial_step bars =
     \<lparr>array = bars, pivotIndex = - 1, comparing = [], activeLineNumber = 1,
      description = ''Starting Quick Sort algorithm'',
      partitionInfo = ''Initializing Quick Sort''\<rparr>"

definition partition_state :: "int \<Rightarrow> int \<Rightarrow> int \<Rightarrow> BarState" where
  "partition_state low high idx =
     (if idx = high then Pivot
      else if idx \<ge> low \<and> idx \<le> high then Active else Default)"

definition partition_step :: "ArrayBar list \<Rightarrow> int \<Rightarrow> int \<Rightarrow> Step" where
  "partition_step a low high =
     \<lparr>array = map_state (partition_state low high) a,
      pivotIndex = high, comparing = [], activeLineNumber = 2,
      description = ''Working with partition ['' @ int_str low @ '' to '' @ int_str high @ '']'',
      partitionInfo = ''Working on partition ['' @ int_str low @ '' to '' @ int_str high
        @ '']. Since partition size == '' @ int_str (high - low + 1)
        @ '', elements inside partition will be sorted.''\<rparr>"

definition compare_state :: "int \<Rightarrow> int \<Rightarrow> int \<Rightarrow> int \<Rightarrow> BarState" where
  "compare_state low high j idx =
     (if idx = high then Pivot
      else if idx = j then Comparing
      else if idx \<ge> low \<and> idx \<le> high then Active else Default)"

definition compare_step :: "ArrayBar list \<Rightarrow> int \<Rightarrow> int \<Rightarrow> int \<Rightarrow> number \<Rightarrow> number \<Rightarrow> Step" where
  "compare_step a low high j vj pivot =
     \<lparr>array = map_state (compare_state low high j) a,
      pivotIndex = high, comparing = [j], activeLineNumber = 3,
      description = ''Comparing '' @ number_str vj @ '' with pivot '' @ number_str pivot,
      partitionInfo = ''Comparing elements in partition ['' @ int_str low @ '' to ''
        @ int_str high @ '']''\<rparr>"

definition swap_step :: "ArrayBar list \<Rightarrow> int \<Rightarrow> int \<Rightarrow> int \<Rightarrow> number \<Rightarrow> number \<Rightarrow> Step" where
  "swap_step a high i j vi vj =
     \<lparr>array = a, pivotIndex = high, comparing = [i, j], activeLineNumber = 4,
      description = ''Swapped '' @ number_str vi @ '' and '' @ number_str vj,
      partitionInfo = ''Swapping elements to maintain partition order''\<rparr>"

definition placed_step :: "ArrayBar list \<Rightarrow> int \<Rightarrow> number \<Rightarrow> nat \<Rightarrow> Step" where
  "placed_step a p pivot cnt =
     \<lparr>array = a, pivotIndex = p, comparing = [], activeLineNumber = 5,
      description = ''Placed pivot '' @ number_str pivot @ '' at position '' @ int_str p,
      partitionInfo = ''Partition '' @ int_str (int cnt) @ '' complete''\<rparr>"

definition final_step :: "ArrayBar list \<Rightarrow> nat \<Rightarrow> Step" where
  "final_step a cnt =
     \<lparr>array = map (\<lambda>bar. bar\<lparr>state := Sorted\<rparr>) a,
      pivotIndex = - 1, comparing = [], activeLineNumber = 6,
      description = ''Array is now sorted!'',
      partitionInfo = ''Quick Sort complete after '' @ int_str (int cnt) @ '' partitions''\<rparr>"

section \<open>The engine\<close>

text \<open>
  One round of the \<open>for\<close> loop of \<open>quickSort\<close>, at loop variable \<open>j\<close> and boundary
  index \<open>i\<close>: the comparison snapshot, then, if \<open>arr[j].value <= pivot\<close>, the
  increment of \<open>i\<close>, the exchange and the swap snapshot.  The description of the swap
  snapshot reads \<open>arr[i].value\<close> and \<open>arr[j].value\<close> after the exchange; an \<open>i\<close>
  outside the array would have left \<open>undefined\<close> at \<open>j\<close>, so that read throws.
\<close>

definition loop_body :: "int \<Rightarrow> int \<Rightarrow> number \<Rightarrow> int \<Rightarrow> int \<Rightarrow> Run \<Rightarrow> error + (int \<times> Run)" where
  "loop_body low high pivot i j s =
     (case bar_at (arr s) j of
        Inl e \<Rightarrow> Inl e
      | Inr bj \<Rightarrow>
          let s1 = push (compare_step (arr s) low high j (value bj) pivot) s in
          if js_le (value bj) pivot then
            (let i' = i + 1 in
             case bar_at (arr s1) i' of
               Inl e \<Rightarrow> Inl e
             | Inr bi \<Rightarrow>
                 let a' = swap (arr s1) i' j;
                     s2 = s1\<lparr>arr := a'\<rparr>
                 in Inr (i', push (swap_step a' high i' j (value (a' ! nat i')) (value (a' ! nat j))) s2))
          else Inr (i, s1))"

text \<open>\<open>for (let j = low; j < high; j++) { ... }\<close>, entered at \<open>j\<close>.\<close>

function loop :: "int \<Rightarrow> int \<Rightarrow> number \<Rightarrow> int \<Rightarrow> int \<Rightarrow> Run \<Rightarrow> error + (int \<times> Run)" where
  "loop low high pivot i j s =
     (if j < high then
        (case loop_body low high pivot i j s of
           Inl e \<Rightarrow> Inl e
         | Inr (i', s') \<Rightarrow> loop low high pivot i' (j + 1) s')
      else Inr (i, s))"
  by pat_completeness auto
termination
  by (relation "measure (\<lambda>(low, high, pivot, i, j, s). nat (high - j))") auto

declare loop.simps [simp del]

text \<open>
  The body of \<open>quickSort\<close> from \<open>partitionCount++\<close> to the pivot-placed snapshot; it
  returns the final boundary index \<open>i\<close>.  It is only entered with \<open>low < high\<close>, and
  then the closing exchange \<open>[arr[i + 1], arr[high]] = [arr[high], arr[i + 1]]\<close> is
  between positions of the array (\<open>closing_exchange_in_range\<close> below): the read of
  \<open>arr[high].value\<close> and the first round of the loop have thrown otherwise.
\<close>

definition quickSort_partition :: "Run \<Rightarrow> int \<Rightarrow> int \<Rightarrow> error + (int \<times> Run)" where
  "quickSort_partition s low high =
     (let s1 = s\<lparr>partitionCount := partitionCount s + 1\<rparr> in
      case bar_at (arr s1) high of
        Inl e \<Rightarrow> Inl e
      | Inr bh \<Rightarrow>
          let pivot = value bh;
              i = low - 1;
              s2 = push (partition_step (arr s1) low high) s1
          in (case loop low high pivot i low s2 of
                Inl e \<Rightarrow> Inl e
              | Inr (i', s3) \<Rightarrow>
                  let a' = swap (arr s3) (i' + 1) high;
                      s4 = s3\<lparr>arr := a'\<rparr>
                  in Inr (i', push (placed_step a' (i' + 1) pivot (partitionCount s4)) s4)))"

text \<open>The boundary index only grows, by at most one per round.\<close>

lemma loop_body_boundary:
  "loop_body low high pivot i j s = Inr (i', s') \<Longrightarrow> i \<le> i' \<and> i' \<le> i + 1"
  by (auto simp: loop_body_def Let_def split: sum.splits if_splits)

lemma loop_boundary:
  "loop low high pivot i j s = Inr (i', s') \<Longrightarrow>
     i \<le> i' \<and> (j \<le> high \<longrightarrow> i' - i \<le> high - j)"
proof (induction low high pivot i j s rule: loop.induct)
  case (1 low high pivot i j s)
  show ?case
  proof (cases "j < high")
    case False
    with "1.prems" show ?thesis by (simp add: loop.simps)
  next
    case True
    with "1.prems" obtain i1 s1 where b: "loop_body low high pivot i j s = Inr (i1, s1)"
      and l: "loop low high pivot i1 (j + 1) s1 = Inr (i', s')"
      by (auto simp: loop.simps[of low high pivot i j s] split: sum.splits)
    from "1.IH"[OF True b refl l] loop_body_boundary[OF b] True show ?thesis by auto
  qed
qed

lemma quickSort_partition_boundary:
  "quickSort_partition s low high = Inr (i, s') \<Longrightarrow> low \<le> high \<Longrightarrow>
     low - 1 \<le> i \<and> i \<le> high - 1"
  by (auto simp: quickSort_partition_def Let_def split: sum.splits dest!: loop_boundary)

text \<open>
  \<open>quickSort(arr, low, high)\<close>: the partition pass, then \<open>quickSort(arr, low, i)\<close> and
  \<open>quickSort(arr, i + 2, high)\<close> on the same array.
\<close>

function quickSort :: "Run \<Rightarrow> int \<Rightarrow> int \<Rightarrow> error + Run" where
  "quickSort s low high =
     (if low < high then
        (case quickSort_partition s low high of
           Inl e \<Rightarrow> Inl e
         | Inr (i, s1) \<Rightarrow>
             (case quickSort s1 low i of
                Inl e \<Rightarrow> Inl e
              | Inr s2 \<Rightarrow> quickSort s2 (i + 2) high))
      else Inr s)"
  by pat_completeness auto
termination
proof (relation "measure (\<lambda>(s, low, high). nat (high - low))", goal_cases)
  case 1
  show ?case by simp
next
  case (2 s low high x i s1)
  then show ?case using quickSort_partition_boundary[of s low high i s1] by simp
next
  case (3 s low high x i s1 s2)
  then show ?case using quickSort_partition_boundary[of s low high i s1] by simp
qed

declare quickSort.simps [simp del]

text \<open>\<open>array.map(value => ({ value, state: 'default' }))\<close>\<close>

definition bars_of :: "number list \<Rightarrow> ArrayBar list" where
  "bars_of xs = map (\<lambda>v. \<lparr>value = v, state = Default\<rparr>) xs"

text \<open>
  \<open>generateSteps(array)\<close>: the initial snapshot, the run of \<open>quickSort\<close> on the whole
  array, the terminal snapshot; the result is the list \<open>steps\<close>.
\<close>

definition generateSteps :: "number list \<Rightarrow> error + Step list" where
  "generateSteps array_in =
     (let bars = bars_of array_in;
          s0 = \<lparr>arr = bars, steps = [initial_step bars], partitionCount = 0\<rparr>
      in case quickSort s0 0 (int (length bars) - 1) of
           Inl e \<Rightarrow> Inl e
         | Inr s1 \<Rightarrow> Inr (steps s1 @ [final_step (arr s1) (partitionCount s1)]))"

section \<open>Predicates of the proofs\<close>

text \<open>
  \<open>permuted_step M st\<close>: the snapshot \<open>st\<close> holds the values of the bars \<open>M\<close>, and a
  swap or pivot-placed snapshot (lines 4 and 5) holds the bars themselves, tags included.
  \<open>extends s s'\<close>: the run \<open>s'\<close> continues \<open>s\<close>: the working array is rearranged and
  snapshots are appended only.
\<close>

definition permuted_step :: "ArrayBar multiset \<Rightarrow> Step \<Rightarrow> bool" where
  "permuted_step M st \<longleftrightarrow>
     image_mset value (mset (array st)) = image_mset value M \<and>
     (activeLineNumber st = 4 \<or> activeLineNumber st = 5 \<longrightarrow> mset (array st) = M)"

definition extends :: "Run \<Rightarrow> Run \<Rightarrow> bool" where
  "extends s s' \<longleftrightarrow>
     mset (arr s') = mset (arr s) \<and>
     (\<exists>new. steps s' = steps s @ new \<and> (\<forall>st \<in> set new. permuted_step (mset (arr s)) st))"

text \<open>
  \<open>same_outside a b low high\<close>: \<open>b\<close> is \<open>a\<close> outside the index range \<open>[low, high]\<close>.
  \<open>split_at a pivot low i j\<close> is the invariant of the \<open>for\<close> loop at \<open>(i, j)\<close>: the bars
  at \<open>low .. i\<close> are \<open><= pivot\<close>, those at \<open>i + 1 .. j - 1\<close> are not.
  \<open>partitioned a low p high\<close>: the bar at \<open>p\<close> splits the range \<open>[low, high]\<close>.
  \<open>sorted_range a low high\<close>: \<open><=\<close> holds from each bar of the range to every later one.
\<close>

definition same_outside :: "ArrayBar list \<Rightarrow> ArrayBar list \<Rightarrow> int \<Rightarrow> int \<Rightarrow> bool" where
  "same_outside a b low high \<longleftrightarrow>
     length b = length a \<and> (\<forall>k < length a. int k < low \<or> high < int k \<longrightarrow> b ! k = a ! k)"

definition split_at :: "ArrayBar list \<Rightarrow> number \<Rightarrow> int \<Rightarrow> int \<Rightarrow> int \<Rightarrow> bool" where
  "split_at a pivot low i j \<longleftrightarrow>
     (\<forall>k::nat. low \<le> int k \<and> int k \<le> i \<longrightarrow> js_le (value (a ! k)) pivot) \<and>
     (\<forall>k::nat. i < int k \<and> int k < j \<longrightarrow> \<not> js_le (value (a ! k)) pivot)"

definition partitioned :: "ArrayBar list \<Rightarrow> int \<Rightarrow> int \<Rightarrow> int \<Rightarrow> bool" where
  "partitioned a low p high \<longleftrightarrow>
     (\<forall>k::nat. low \<le> int k \<and> int k < p \<longrightarrow> js_le (value (a ! k)) (value (a ! nat p))) \<and>
     (\<forall>k::nat. p < int k \<and> int k \<le> high \<longrightarrow> \<not> js_le (value (a ! k)) (value (a ! nat p)))"

definition sorted_range :: "ArrayBar list \<Rightarrow> int \<Rightarrow> int \<Rightarrow> bool" where
  "sorted_range a low high \<longleftrightarrow>
     (\<forall>k l::nat. low \<le> int k \<and> k < l \<and> int l \<le> high \<longrightarrow> js_le (value (a ! k)) (value (a ! l)))"

section \<open>Properties of the run\<close>

subsection \<open>Every snapshot is a rearrangement of the working array\<close>

lemma push_simps [simp]:
  "arr (push st s) = arr s" "steps (push st s) = steps s @ [st]"
  "partitionCount (push st s) = partitionCount s"
  by (simp_all add: push_def)

lemma length_swap [simp]: "length (swap a i j) = length a"
  by (simp add: swap_def)

lemma mset_swap_bars:
  "0 \<le> i \<Longrightarrow> i < int (length a) \<Longrightarrow> 0 \<le> j \<Longrightarrow> j < int (length a) \<Longrightarrow> mset (swap a i j) = mset a"
  unfolding swap_def by (rule mset_swap) auto

lemma bar_at_Inr: "bar_at a k = Inr b \<longleftrightarrow> 0 \<le> k \<and> k < int (length a) \<and> b = a ! nat k"
  by (auto simp: bar_at_def)

lemma length_map_state [simp]: "length (map_state f a) = length a"
  by (simp add: map_state_def)

lemma val_map_state [simp]: "map value (map_state f a) = map value a"
  by (induction a rule: rev_induct) (simp_all add: map_state_def enumerate_append_eq)


lemma val_mset_map_state [simp]: "image_mset value (mset (map_state f a)) = image_mset value (mset a)"
  using val_map_state[of f a] by (metis mset_map)

lemma extends_refl: "extends s s"
  by (simp add: extends_def)

lemma extends_trans: "extends s s1 \<Longrightarrow> extends s1 s2 \<Longrightarrow> extends s s2"
  by (auto simp: extends_def)

lemma extends_count: "extends s s' \<Longrightarrow> extends (s\<lparr>partitionCount := n\<rparr>) s'"
  by (simp add: extends_def)

lemma permuted_step_simps [simp]:
  "permuted_step (mset a) (partition_step a low high)"
  "permuted_step (mset a) (compare_step a low high j vj pivot)"
  "mset a' = mset a \<Longrightarrow> permuted_step (mset a) (swap_step a' high i j vi vj)"
  "mset a' = mset a \<Longrightarrow> permuted_step (mset a) (placed_step a' p pivot cnt)"
  by (simp_all add: permuted_step_def partition_step_def compare_step_def swap_step_def placed_step_def)

lemma loop_body_extends:
  assumes "loop_body low high pivot i j s = Inr (i', s')"
  shows "extends s s'" and "partitionCount s' = partitionCount s"
  using assms
  by (auto simp: loop_body_def Let_def extends_def bar_at_Inr mset_swap_bars
           split: sum.splits if_splits)

lemma loop_extends:
  "loop low high pivot i j s = Inr (i', s') \<Longrightarrow> extends s s' \<and> partitionCount s' = partitionCount s"
proof (induction low high pivot i j s rule: loop.induct)
  case (1 low high pivot i j s)
  show ?case
  proof (cases "j < high")
    case False
    with "1.prems" show ?thesis by (simp add: loop.simps extends_refl)
  next
    case True
    with "1.prems" obtain i1 s1 where b: "loop_body low high pivot i j s = Inr (i1, s1)"
      and l: "loop low high pivot i1 (j + 1) s1 = Inr (i', s')"
      by (auto simp: loop.simps[of low high pivot i j s] split: sum.splits)
    from "1.IH"[OF True b refl l] loop_body_extends[OF b] show ?thesis
      by (auto intro: extends_trans)
  qed
qed

lemma loop_entered:
  assumes "loop low high pivot i j s = Inr (i', s')" and "j < high"
  shows "0 \<le> j \<and> j < int (length (arr s))"
  using assms
  by (auto simp: loop.simps[of low high pivot i j s] loop_body_def bar_at_Inr split: sum.splits)

lemma extends_length: "extends s s' \<Longrightarrow> length (arr s') = length (arr s)"
  by (auto simp: extends_def dest: mset_eq_length)

lemma quickSort_partition_extends:
  assumes "quickSort_partition s low high = Inr (i, s')" and "low < high"
  shows "extends s s'"
proof -
  let ?s1 = "s\<lparr>partitionCount := partitionCount s + 1\<rparr>"
  let ?s2 = "push (partition_step (arr s) low high) ?s1"
  from assms(1) obtain s3 where
    h: "0 \<le> high" "high < int (length (arr s))" and
    l: "loop low high (value (arr s ! nat high)) (low - 1) low ?s2 = Inr (i, s3)" and
    s': "s' = push (placed_step (swap (arr s3) (i + 1) high) (i + 1) (value (arr s ! nat high))
                 (partitionCount s3)) (s3\<lparr>arr := swap (arr s3) (i + 1) high\<rparr>)"
    by (auto simp: quickSort_partition_def Let_def bar_at_Inr split: sum.splits)
  from loop_extends[OF l] have e: "extends ?s2 s3" by simp
  from loop_entered[OF l assms(2)] have lo: "0 \<le> low" by simp
  from loop_boundary[OF l] assms(2) have b: "low - 1 \<le> i" "i \<le> high - 1" by auto
  have len: "length (arr s3) = length (arr s)" using extends_length[OF e] by simp
  have m: "mset (swap (arr s3) (i + 1) high) = mset (arr s3)"
    by (rule mset_swap_bars) (use h lo b len in auto)
  have "extends s ?s2" by (simp add: extends_def)
  moreover have "extends s3 s'" unfolding s' using m by (simp add: extends_def)
  ultimately show ?thesis using e by (blast intro: extends_trans)
qed

lemma quickSort_extends:
  "quickSort s low high = Inr s' \<Longrightarrow> extends s s'"
proof (induction s low high arbitrary: s' rule: quickSort.induct)
  case (1 s low high)
  show ?case
  proof (cases "low < high")
    case False
    with "1.prems" show ?thesis by (simp add: quickSort.simps extends_refl)
  next
    case True
    with "1.prems" obtain i s1 s2 where p: "quickSort_partition s low high = Inr (i, s1)"
      and q1: "quickSort s1 low i = Inr s2" and q2: "quickSort s2 (i + 2) high = Inr s'"
      by (auto simp: quickSort.simps[of s low high] split: sum.splits)
    from quickSort_partition_extends[OF p True] "1.IH"(1)[OF True p refl q1]
      "1.IH"(2)[OF True p refl q1 q2]
    show ?thesis by (blast intro: extends_trans)
  qed
qed

text \<open>
  The closing exchange of a partition pass is between positions inside the array, as the
  exchange in the loop is (there by the two reads that precede it).
\<close>

lemma closing_exchange_in_range:
  assumes "loop low high pivot (low - 1) low s = Inr (i, s')" "low < high"
    "0 \<le> high" "high < int (length (arr s))"
  shows "0 \<le> i + 1 \<and> i + 1 < int (length (arr s')) \<and> high < int (length (arr s'))"
proof -
  from loop_entered[OF assms(1,2)] have "0 \<le> low" by simp
  moreover from loop_boundary[OF assms(1)] assms(2) have "low - 1 \<le> i" "i \<le> high - 1" by auto
  moreover have "length (arr s') = length (arr s)"
    using loop_extends[OF assms(1)] by (simp add: extends_length)
  ultimately show ?thesis using assms(3,4) by simp
qed

subsection \<open>The run raises no exception\<close>

lemma loop_body_total:
  assumes "0 \<le> j" "j < int (length (arr s))" "- 1 \<le> i" "i < j"
  shows "\<exists>i' s'. loop_body low high pivot i j s = Inr (i', s')"
  using assms by (simp add: loop_body_def Let_def bar_at_def)

lemma loop_total:
  "0 \<le> j \<Longrightarrow> high \<le> int (length (arr s)) \<Longrightarrow> - 1 \<le> i \<Longrightarrow> i < j \<Longrightarrow>
     \<exists>i' s'. loop low high pivot i j s = Inr (i', s')"
proof (induction low high pivot i j s rule: loop.induct)
  case (1 low high pivot i j s)
  show ?case
  proof (cases "j < high")
    case False
    then show ?thesis by (simp add: loop.simps)
  next
    case True
    with "1.prems" obtain i1 s1 where b: "loop_body low high pivot i j s = Inr (i1, s1)"
      using loop_body_total[of j s i low high pivot] by auto
    have len: "length (arr s1) = length (arr s)"
      using loop_body_extends(1)[OF b] by (rule extends_length)
    from loop_body_boundary[OF b] "1.prems" len
    have "\<exists>i' s'. loop low high pivot i1 (j + 1) s1 = Inr (i', s')"
      by (intro "1.IH"[OF True b refl]) auto
    then show ?thesis using b True by (simp add: loop.simps[of low high pivot i j s])
  qed
qed

lemma quickSort_partition_total:
  assumes "0 \<le> low" "low < high" "high < int (length (arr s))"
  shows "\<exists>i s'. quickSort_partition s low high = Inr (i, s')"
proof -
  let ?s2 = "push (partition_step (arr s) low high) (s\<lparr>partitionCount := partitionCount s + 1\<rparr>)"
  from assms obtain i s3 where
    "loop low high (value (arr s ! nat high)) (low - 1) low ?s2 = Inr (i, s3)"
    using loop_total[of low high ?s2 "low - 1" low "value (arr s ! nat high)"] by auto
  with assms show ?thesis
    by (simp add: quickSort_partition_def Let_def bar_at_def)
qed

lemma quickSort_total:
  "0 \<le> low \<Longrightarrow> high < int (length (arr s)) \<Longrightarrow> \<exists>s'. quickSort s low high = Inr s'"
proof (induction s low high rule: quickSort.induct)
  case (1 s low high)
  show ?case
  proof (cases "low < high")
    case False
    then show ?thesis by (simp add: quickSort.simps)
  next
    case True
    from quickSort_partition_total[OF "1.prems"(1) True "1.prems"(2)]
    obtain i s1 where p: "quickSort_partition s low high = Inr (i, s1)" by blast
    from quickSort_partition_boundary[OF p] True
    have b: "low - 1 \<le> i" "i \<le> high - 1" by auto
    have len1: "length (arr s1) = length (arr s)"
      using quickSort_partition_extends[OF p True] by (rule extends_length)
    from "1.IH"(1)[OF True p refl] "1.prems" b len1
    obtain s2 where q1: "quickSort s1 low i = Inr s2" by auto
    have len2: "length (arr s2) = length (arr s1)"
      using quickSort_extends[OF q1] by (rule extends_length)
    from "1.IH"(2)[OF True p refl q1] "1.prems" b len1 len2
    obtain s3 where q2: "quickSort s2 (i + 2) high = Inr s3" by auto
    from True p q1 q2 show ?thesis by (simp add: quickSort.simps[of s low high])
  qed
qed

lemma generateSteps_total: "\<exists>tr. generateSteps xs = Inr tr"
proof -
  let ?bars = "bars_of xs"
  let ?s0 = "\<lparr>arr = ?bars, steps = [initial_step ?bars], partitionCount = 0\<rparr>"
  have "\<exists>s'. quickSort ?s0 0 (int (length ?bars) - 1) = Inr s'"
    by (rule quickSort_total) auto
  then show ?thesis by (auto simp: generateSteps_def Let_def)
qed

subsection \<open>The partition pass and the sorted result\<close>

lemma nth_swap:
  assumes "0 \<le> i" "0 \<le> j" "i < int (length a)" "j < int (length a)" "k < length a"
  shows "swap a i j ! k = (if int k = j then a ! nat i else if int k = i then a ! nat j else a ! k)"
  using assms by (auto simp: swap_def nth_list_update)

lemma same_outside_refl: "same_outside a a low high"
  by (simp add: same_outside_def)

lemma same_outside_trans:
  assumes "same_outside a b l1 h1" "same_outside b c l2 h2"
    and "low \<le> l1" "low \<le> l2" "h1 \<le> high" "h2 \<le> high"
  shows "same_outside a c low high"
  using assms unfolding same_outside_def by auto

lemma same_outside_swap:
  assumes "0 \<le> i" "0 \<le> j" "i < int (length a)" "j < int (length a)"
    and "low \<le> i" "i \<le> high" "low \<le> j" "j \<le> high"
  shows "same_outside a (swap a i j) low high"
  using assms by (auto simp: same_outside_def nth_swap)

lemma loop_body_split:
  assumes b: "loop_body low high pivot i j s = Inr (i', s')"
    and r: "low \<le> j" "low - 1 \<le> i" "i < j" "0 \<le> low"
    and inv: "split_at (arr s) pivot low i j"
  shows "split_at (arr s') pivot low i' (j + 1) \<and> same_outside (arr s) (arr s') low j"
proof (cases "js_le (value (arr s ! nat j)) pivot")
  case False
  with b have e: "i' = i" "arr s' = arr s"
    by (auto simp: loop_body_def Let_def bar_at_Inr split: sum.splits if_splits)
  have "split_at (arr s) pivot low i (j + 1)"
    unfolding split_at_def
  proof (intro conjI allI impI)
    fix k :: nat assume "low \<le> int k \<and> int k \<le> i"
    with inv show "js_le (value (arr s ! k)) pivot" by (simp add: split_at_def)
  next
    fix k :: nat assume k: "i < int k \<and> int k < j + 1"
    show "\<not> js_le (value (arr s ! k)) pivot"
    proof (cases "int k = j")
      case True
      then have "nat j = k" by simp
      with False show ?thesis by simp
    next
      case False
      with k inv show ?thesis by (simp add: split_at_def)
    qed
  qed
  with e show ?thesis by (simp add: same_outside_refl)
next
  case True
  with b have j: "0 \<le> j" "j < int (length (arr s))" and i1: "i + 1 < int (length (arr s))"
    and e: "i' = i + 1" "arr s' = swap (arr s) (i + 1) j"
    by (auto simp: loop_body_def Let_def bar_at_Inr split: sum.splits if_splits)
  let ?a = "arr s"
  have i0: "0 \<le> i + 1" using r by simp
  have "split_at (swap ?a (i + 1) j) pivot low (i + 1) (j + 1)"
    unfolding split_at_def
  proof (intro conjI allI impI)
    fix k :: nat assume k: "low \<le> int k \<and> int k \<le> i + 1"
    then have kl: "k < length ?a" using i1 by simp
    show "js_le (value (swap ?a (i + 1) j ! k)) pivot"
    proof (cases "int k = i + 1")
      case True
      then show ?thesis using \<open>js_le (value (arr s ! nat j)) pivot\<close> i0 j i1 kl
        by (simp add: nth_swap)
    next
      case False
      with k r have "int k \<noteq> j" "int k \<le> i" by auto
      with False k inv i0 j i1 kl show ?thesis by (simp add: nth_swap split_at_def)
    qed
  next
    fix k :: nat assume k: "i + 1 < int k \<and> int k < j + 1"
    then have kl: "k < length ?a" using j by simp
    show "\<not> js_le (value (swap ?a (i + 1) j ! k)) pivot"
    proof (cases "int k = j")
      case True
      have "i < int (nat (i + 1)) \<and> int (nat (i + 1)) < j" using k True i0 by simp
      with inv have "\<not> js_le (value (?a ! nat (i + 1))) pivot" unfolding split_at_def by blast
      with True i0 j i1 kl show ?thesis by (simp add: nth_swap)
    next
      case False
      with k inv i0 j i1 kl show ?thesis by (simp add: nth_swap split_at_def)
    qed
  qed
  moreover have "same_outside ?a (swap ?a (i + 1) j) low j"
    by (rule same_outside_swap) (use r i0 j i1 in auto)
  ultimately show ?thesis using e by simp
qed

lemma loop_split:
  "loop low high pivot i j s = Inr (i', s') \<Longrightarrow> low \<le> j \<Longrightarrow> low - 1 \<le> i \<Longrightarrow> i < j \<Longrightarrow>
     0 \<le> low \<Longrightarrow> j \<le> high \<Longrightarrow> split_at (arr s) pivot low i j \<Longrightarrow>
     split_at (arr s') pivot low i' high \<and> same_outside (arr s) (arr s') low (high - 1)"
proof (induction low high pivot i j s rule: loop.induct)
  case (1 low high pivot i j s)
  show ?case
  proof (cases "j < high")
    case False
    with "1.prems" have "i' = i" "s' = s" "j = high" by (auto simp: loop.simps)
    with "1.prems" show ?thesis by (simp add: same_outside_refl)
  next
    case True
    with "1.prems" obtain i1 s1 where b: "loop_body low high pivot i j s = Inr (i1, s1)"
      and l: "loop low high pivot i1 (j + 1) s1 = Inr (i', s')"
      by (auto simp: loop.simps[of low high pivot i j s] split: sum.splits)
    from loop_body_split[OF b "1.prems"(2,3,4,5,7)]
    have s1: "split_at (arr s1) pivot low i1 (j + 1)" and o1: "same_outside (arr s) (arr s1) low j"
      by auto
    from loop_body_boundary[OF b] have bi: "i \<le> i1" "i1 \<le> i + 1" by auto
    have "split_at (arr s') pivot low i' high \<and> same_outside (arr s1) (arr s') low (high - 1)"
      by (rule "1.IH"[OF True b refl l]) (use "1.prems" bi True s1 in auto)
    with o1 True show ?thesis
      by (auto intro: same_outside_trans[where ?l1.0 = low and ?h1.0 = j and ?l2.0 = low and ?h2.0 = "high - 1"])
  qed
qed

lemma quickSort_partition_partitioned:
  assumes p: "quickSort_partition s low high = Inr (i, s')" and lh: "low < high"
  shows "partitioned (arr s') low (i + 1) high \<and> same_outside (arr s) (arr s') low high
         \<and> 0 \<le> low \<and> high < int (length (arr s))
         \<and> arr s' ! nat (i + 1) = arr s ! nat high"
proof -
  let ?s2 = "push (partition_step (arr s) low high) (s\<lparr>partitionCount := partitionCount s + 1\<rparr>)"
  let ?pivot = "value (arr s ! nat high)"
  from p obtain s3 where
    h: "0 \<le> high" "high < int (length (arr s))" and
    l: "loop low high ?pivot (low - 1) low ?s2 = Inr (i, s3)" and
    s': "arr s' = swap (arr s3) (i + 1) high"
    by (auto simp: quickSort_partition_def Let_def bar_at_Inr split: sum.splits)
  from loop_entered[OF l lh] have lo: "0 \<le> low" by simp
  from loop_boundary[OF l] lh have b: "low - 1 \<le> i" "i \<le> high - 1" by auto
  have "split_at (arr ?s2) ?pivot low (low - 1) low" by (auto simp: split_at_def)
  with loop_split[OF l] lo lh
  have sp: "split_at (arr s3) ?pivot low i high" and o: "same_outside (arr s) (arr s3) low (high - 1)"
    by auto
  let ?a = "arr s3"
  have len: "length ?a = length (arr s)" using o by (simp add: same_outside_def)
  have hk: "nat high < length (arr s)" using h by simp
  have ph: "?a ! nat high = arr s ! nat high"
    using o hk h unfolding same_outside_def by auto
  have r: "0 \<le> i + 1" "i + 1 < int (length ?a)" "0 \<le> high" "high < int (length ?a)"
    using lo b h len by auto
  have pv: "swap ?a (i + 1) high ! nat (i + 1) = arr s ! nat high"
    using r ph by (simp add: nth_swap)
  have "partitioned (swap ?a (i + 1) high) low (i + 1) high"
    unfolding partitioned_def pv
  proof (intro conjI allI impI)
    fix k :: nat assume k: "low \<le> int k \<and> int k < i + 1"
    then have "k < length ?a" using r by simp
    with k r b sp show "js_le (value (swap ?a (i + 1) high ! k)) ?pivot"
      by (simp add: nth_swap split_at_def)
  next
    fix k :: nat assume k: "i + 1 < int k \<and> int k \<le> high"
    then have kl: "k < length ?a" using r by simp
    show "\<not> js_le (value (swap ?a (i + 1) high ! k)) ?pivot"
    proof (cases "int k = high")
      case True
      have "i < int (nat (i + 1)) \<and> int (nat (i + 1)) < high" using k True r by simp
      with sp have "\<not> js_le (value (?a ! nat (i + 1))) ?pivot" unfolding split_at_def by blast
      with True r kl show ?thesis by (simp add: nth_swap)
    next
      case False
      with k sp r kl show ?thesis by (simp add: nth_swap split_at_def)
    qed
  qed
  moreover have "same_outside ?a (swap ?a (i + 1) high) low high"
    by (rule same_outside_swap) (use r b in auto)
  with o have "same_outside (arr s) (swap ?a (i + 1) high) low high"
    by (rule same_outside_trans) auto
  ultimately show ?thesis using s' lo h pv by simp
qed

lemma take_eq_outside:
  assumes "same_outside a b low high" "0 \<le> low"
  shows "take (nat low) b = take (nat low) a"
  using assms by (intro nth_equalityI) (auto simp: same_outside_def)

lemma drop_eq_outside:
  assumes "same_outside a b low high"
  shows "drop (nat (high + 1)) b = drop (nat (high + 1)) a"
  using assms by (intro nth_equalityI) (auto simp: same_outside_def)

lemma range_perm:
  assumes m: "mset b = mset a" and o: "same_outside a b low high"
    and r: "0 \<le> low" "high < int (length a)" and k: "low \<le> int k" "int k \<le> high"
  shows "\<exists>k'. low \<le> int k' \<and> int k' \<le> high \<and> b ! k = a ! k'"
proof -
  let ?l = "nat low" and ?r = "nat (high + 1)"
  let ?mid = "\<lambda>xs::ArrayBar list. take (?r - ?l) (drop ?l xs)"
  have len: "length b = length a" using o by (simp add: same_outside_def)
  have lr: "?l \<le> ?r" "?r \<le> length a" using r k by auto
  have dec: "xs = take ?l xs @ ?mid xs @ drop ?r xs" for xs :: "ArrayBar list"
    using lr(1) by (metis append_take_drop_id drop_drop le_add_diff_inverse2)
  have "mset (take ?l b) + mset (?mid b) + mset (drop ?r b)
        = mset (take ?l a) + mset (?mid a) + mset (drop ?r a)"
    using m dec[of a] dec[of b] by (metis mset_append union_assoc)
  then have mm: "mset (?mid b) = mset (?mid a)"
    using take_eq_outside[OF o r(1)] drop_eq_outside[OF o] by simp
  have kin: "k - ?l < length (?mid b)" using k r len by auto
  have "b ! k = ?mid b ! (k - ?l)" using k r len by auto
  then have "b ! k \<in> set (?mid b)" using kin by (metis nth_mem)
  then have "b ! k \<in> set (?mid a)" using mm by (metis mset_eq_setD)
  then obtain m' where m': "m' < length (?mid a)" "?mid a ! m' = b ! k"
    by (auto simp: in_set_conv_nth)
  then have "a ! (?l + m') = b ! k" using lr by auto
  moreover have "low \<le> int (?l + m')" "int (?l + m') \<le> high" using m' r lr by auto
  ultimately show ?thesis by metis
qed

lemma js_le_trans: "js_le x y \<Longrightarrow> js_le y z \<Longrightarrow> js_le x z"
  by (cases x; cases y; cases z) auto

lemma js_le_total: "x \<noteq> NaN \<Longrightarrow> y \<noteq> NaN \<Longrightarrow> \<not> js_le x y \<Longrightarrow> js_le y x"
  by (cases x; cases y) auto

lemma quickSort_sorts:
  "quickSort s low high = Inr s' \<Longrightarrow> 0 \<le> low \<Longrightarrow> high < int (length (arr s)) \<Longrightarrow>
     (\<forall>b \<in> set (arr s). value b \<noteq> NaN) \<Longrightarrow>
     sorted_range (arr s') low high \<and> same_outside (arr s) (arr s') low high"
proof (induction s low high arbitrary: s' rule: quickSort.induct)
  case (1 s low high)
  show ?case
  proof (cases "low < high")
    case False
    with "1.prems" have "s' = s" by (simp add: quickSort.simps)
    with False show ?thesis by (auto simp: sorted_range_def same_outside_refl)
  next
    case True
    with "1.prems" obtain i s1 s2 where p: "quickSort_partition s low high = Inr (i, s1)"
      and q1: "quickSort s1 low i = Inr s2" and q2: "quickSort s2 (i + 2) high = Inr s'"
      by (auto simp: quickSort.simps[of s low high] split: sum.splits)
    let ?a = "arr s" and ?a1 = "arr s1" and ?a2 = "arr s2" and ?a3 = "arr s'"
    define p' where "p' = i + 1"
    define pv where "pv = value (?a1 ! nat p')"
    from quickSort_partition_boundary[OF p] True have b: "low \<le> p'" "p' \<le> high"
      by (auto simp: p'_def)
    from quickSort_partition_partitioned[OF p True]
    have part: "partitioned ?a1 low p' high" and o1: "same_outside ?a ?a1 low high"
      by (auto simp: p'_def)
    have m1: "mset ?a1 = mset ?a"
      using quickSort_partition_extends[OF p True] by (simp add: extends_def)
    have m2: "mset ?a2 = mset ?a1" using quickSort_extends[OF q1] by (simp add: extends_def)
    have m3: "mset ?a3 = mset ?a2" using quickSort_extends[OF q2] by (simp add: extends_def)
    have len: "length ?a1 = length ?a" "length ?a2 = length ?a" "length ?a3 = length ?a"
      using m1 m2 m3 by (metis mset_eq_length)+
    have nn: "\<forall>b \<in> set ?a1. value b \<noteq> NaN" "\<forall>b \<in> set ?a2. value b \<noteq> NaN"
       "\<forall>b \<in> set ?a3. value b \<noteq> NaN"
      using "1.prems"(4) m1 m2 m3 by (metis mset_eq_setD)+
    have e: "p' - 1 = i" "p' + 1 = i + 2" by (simp_all add: p'_def)
    have "sorted_range ?a2 low i \<and> same_outside ?a1 ?a2 low i"
      by (rule "1.IH"(1)[OF True p refl q1]) (use "1.prems" b len nn e in auto)
    then have ih1: "sorted_range ?a2 low (p' - 1)" "same_outside ?a1 ?a2 low (p' - 1)"
      by (simp_all add: e)
    have "sorted_range ?a3 (i + 2) high \<and> same_outside ?a2 ?a3 (i + 2) high"
      by (rule "1.IH"(2)[OF True p refl q1 q2]) (use "1.prems" b len nn e in auto)
    then have ih2: "sorted_range ?a3 (p' + 1) high" "same_outside ?a2 ?a3 (p' + 1) high"
      by (simp_all add: e)
    have o12: "same_outside ?a ?a2 low high"
      by (rule same_outside_trans[OF o1 ih1(2)]) (use b in auto)
    have o: "same_outside ?a ?a3 low high"
      by (rule same_outside_trans[OF o12 ih2(2)]) (use b in auto)
    have hl: "high < int (length ?a1)" "high < int (length ?a2)" using "1.prems" len by auto
    have pk: "nat p' < length ?a" "int (nat p') = p'" using b "1.prems" by auto
    have piv2: "?a2 ! nat p' = ?a1 ! nat p'"
      using ih1(2) pk len unfolding same_outside_def by auto
    have piv3: "?a3 ! nat p' = ?a1 ! nat p'"
      using ih2(2) pk len piv2 unfolding same_outside_def by auto
    have pvn: "pv \<noteq> NaN" using nn(1) pk len by (simp add: pv_def)
    have left2: "js_le (value (?a2 ! k)) pv" if k: "low \<le> int k" "int k < p'" for k
    proof -
      from range_perm[OF m2 ih1(2) "1.prems"(2), of k] k b hl
      obtain k' where "low \<le> int k'" "int k' \<le> p' - 1" "?a2 ! k = ?a1 ! k'" by auto
      with part show ?thesis unfolding partitioned_def pv_def by auto
    qed
    have same3: "?a3 ! k = ?a2 ! k" if k: "int k \<le> p'" for k
      using ih2(2) k b hl len unfolding same_outside_def by auto
    have left3: "js_le (value (?a3 ! k)) pv" if k: "low \<le> int k" "int k < p'" for k
      using left2[OF k] same3[of k] k by simp
    have right3: "js_le pv (value (?a3 ! k))" if k: "p' < int k" "int k \<le> high" for k
    proof -
      have p0: "0 \<le> p' + 1" using b "1.prems" by simp
      from range_perm[OF m3 ih2(2) p0, of k] k hl
      obtain k' where k': "p' + 1 \<le> int k'" "int k' \<le> high" "?a3 ! k = ?a2 ! k'" by auto
      then have "?a2 ! k' = ?a1 ! k'"
        using ih1(2) hl len unfolding same_outside_def by auto
      with k' part have n: "\<not> js_le (value (?a3 ! k)) pv" unfolding partitioned_def pv_def by auto
      have "k < length ?a3" using k hl len by simp
      then have "value (?a3 ! k) \<noteq> NaN" using nn(3) by simp
      from js_le_total[OF this pvn n] show ?thesis .
    qed
    have "sorted_range ?a3 low high"
      unfolding sorted_range_def
    proof (intro allI impI)
      fix k l :: nat assume kl: "low \<le> int k \<and> k < l \<and> int l \<le> high"
      consider "int l < p'" | "int l = p'" | "int k < p'" "p' < int l" | "int k = p'" | "p' < int k"
        using kl by linarith
      then show "js_le (value (?a3 ! k)) (value (?a3 ! l))"
      proof cases
        case 1
        with kl ih1(1) have "js_le (value (?a2 ! k)) (value (?a2 ! l))"
          unfolding sorted_range_def by auto
        with 1 kl same3[of k] same3[of l] show ?thesis by simp
      next
        case 2
        then have l: "l = nat p'" by simp
        have "int k < p'" using 2 kl by linarith
        with kl have "js_le (value (?a3 ! k)) pv" by (intro left3) auto
        with l piv3 show ?thesis by (simp add: pv_def)
      next
        case 3
        with kl left3[of k] right3[of l] show ?thesis by (blast intro: js_le_trans)
      next
        case 4
        then have k: "k = nat p'" by simp
        have "p' < int l" using 4 kl by linarith
        with kl have "js_le pv (value (?a3 ! l))" by (intro right3) auto
        with k piv3 show ?thesis by (simp add: pv_def)
      next
        case 5
        with kl ih2(1) show ?thesis unfolding sorted_range_def by auto
      qed
    qed
    with o show ?thesis by simp
  qed
qed

subsection \<open>The shape of a trace\<close>

lemma generateSteps_trace:
  obtains s1 new where
    "generateSteps xs
       = Inr (initial_step (bars_of xs) # new @ [final_step (arr s1) (partitionCount s1)])"
    "quickSort \<lparr>arr = bars_of xs, steps = [initial_step (bars_of xs)], partitionCount = 0\<rparr>
          0 (int (length xs) - 1) = Inr s1"
    "mset (arr s1) = mset (bars_of xs)"
    "\<forall>st \<in> set new. permuted_step (mset (bars_of xs)) st"
proof -
  let ?s0 = "\<lparr>arr = bars_of xs, steps = [initial_step (bars_of xs)], partitionCount = 0\<rparr>"
  have "\<exists>s'. quickSort ?s0 0 (int (length xs) - 1) = Inr s'"
    by (rule quickSort_total) (auto simp: bars_of_def)
  then obtain s1 where q: "quickSort ?s0 0 (int (length xs) - 1) = Inr s1" by blast
  from quickSort_extends[OF q] obtain new where
    "mset (arr s1) = mset (bars_of xs)" "steps s1 = initial_step (bars_of xs) # new"
    "\<forall>st \<in> set new. permuted_step (mset (bars_of xs)) st"
    by (auto simp: extends_def)
  moreover from this q have "generateSteps xs
       = Inr (initial_step (bars_of xs) # new @ [final_step (arr s1) (partitionCount s1)])"
    by (simp add: generateSteps_def Let_def bars_of_def)
  ultimately show ?thesis using q that by blast
qed

lemma sorted_range_sorted_wrt:
  assumes "sorted_range a 0 (int (length a) - 1)"
  shows "sorted_wrt js_le (map value a)"
  using assms by (auto simp: sorted_range_def sorted_wrt_iff_nth_less)

subsection \<open>One round of the loop that swaps\<close>

lemma swap_same: "swap a j j = a"
  by (simp add: swap_def)

lemma loop_body_swaps:
  assumes "bar_at (arr s) j = Inr bj" "js_le (value bj) pivot" "bar_at (arr s) (i + 1) = Inr bi"
  shows "loop_body low high pivot i j s
     = Inr (i + 1, \<lparr>arr = swap (arr s) (i + 1) j,
          steps = steps s @ [compare_step (arr s) low high j (value bj) pivot,
                             swap_step (swap (arr s) (i + 1) j) high (i + 1) j (value bj) (value bi)],
          partitionCount = partitionCount s\<rparr>)"
proof -
  from assms have r: "0 \<le> j" "j < int (length (arr s))" "0 \<le> i + 1" "i + 1 < int (length (arr s))"
    and b: "bj = arr s ! nat j" "bi = arr s ! nat (i + 1)"
    by (auto simp: bar_at_Inr)
  have n: "nat j < length (arr s)" "nat (i + 1) < length (arr s)" using r by auto
  have v: "swap (arr s) (i + 1) j ! nat (i + 1) = bj" "swap (arr s) (i + 1) j ! nat j = bi"
    using r n b by (auto simp: nth_swap)
  show ?thesis
    using assms v by (simp add: loop_body_def Let_def push_def)
qed

lemma extends_tags:
  assumes "extends s s'" "\<forall>b \<in> set (arr s). state b = Default"
  shows "\<forall>b \<in> set (arr s'). state b = Default"
  using assms by (metis extends_def mset_eq_setD)

subsection \<open>Sorted lists of numbers\<close>

lemma numbers_are_Num: "NaN \<notin> set vs \<Longrightarrow> \<exists>ys. vs = map Num ys"
proof (induction vs)
  case Nil
  then show ?case by simp
next
  case (Cons v vs)
  then obtain ys where "vs = map Num ys" by auto
  moreover from Cons.prems obtain k where "v = Num k" by (cases v) auto
  ultimately have "v # vs = map Num (k # ys)" by simp
  then show ?case by (rule exI)
qed

lemma sorted_numbers:
  assumes m: "mset vs = mset (map Num ks)" and s: "sorted_wrt js_le vs"
  shows "vs = map Num (sort ks)"
proof -
  have "set vs = set (map Num ks)" using m by (rule mset_eq_setD)
  then have "NaN \<notin> set vs" by auto
  then obtain ys where ys: "vs = map Num ys" using numbers_are_Num by blast
  have "inj Num" by (simp add: inj_def)
  with m ys have "mset ys = mset ks"
    by (metis mset_map multiset.inj_map inj_eq)
  moreover from s ys have "sorted ys" by (simp add: sorted_wrt_map)
  ultimately have "sort ks = ys" by (rule properties_for_sort)
  with ys show ?thesis by simp
qed

section \<open>The claims\<close>

text \<open>
  C1, as the code has it.  For every input, every element of the last snapshot of the trace
  is tagged \<open>sorted\<close>.  For every input with no \<open>NaN\<close> entry the last snapshot has its
  elements in non-decreasing order of value (\<open><=\<close> holds between any earlier and any later
  value); for integers \<open>ks\<close> they are \<open>sort ks\<close>.
\<close>

theorem final_snapshot_sorted:
  "\<exists>tr. generateSteps xs = Inr tr
     \<and> (\<forall>b \<in> set (array (last tr)). state b = Sorted)
     \<and> (NaN \<notin> set xs \<longrightarrow> sorted_wrt js_le (map value (array (last tr))))
     \<and> (\<forall>ks. xs = map Num ks \<longrightarrow> map value (array (last tr)) = map Num (sort ks))"
proof -
  obtain s1 new where
    g: "generateSteps xs = Inr (initial_step (bars_of xs) # new @ [final_step (arr s1) (partitionCount s1)])"
    and q: "quickSort \<lparr>arr = bars_of xs, steps = [initial_step (bars_of xs)], partitionCount = 0\<rparr>
          0 (int (length xs) - 1) = Inr s1"
    and m: "mset (arr s1) = mset (bars_of xs)"
    by (rule generateSteps_trace[of xs])
  let ?last = "final_step (arr s1) (partitionCount s1)"
  have len: "length (arr s1) = length xs"
    using mset_eq_length[OF m] by (simp add: bars_of_def)
  have vb: "map value (bars_of xs) = xs" by (simp add: bars_of_def comp_def)
  have ms: "mset (map value (arr s1)) = mset xs" using m vb by (metis mset_map)
  have v: "map value (array ?last) = map value (arr s1)"
    by (simp add: final_step_def comp_def)
  have srt: "sorted_wrt js_le (map value (arr s1))" if "NaN \<notin> set xs"
  proof -
    from that have "\<forall>b \<in> set (bars_of xs). value b \<noteq> NaN" by (auto simp: bars_of_def)
    then have "sorted_range (arr s1) 0 (int (length xs) - 1)"
      using quickSort_sorts[OF q] by (auto simp: bars_of_def)
    then show ?thesis using len sorted_range_sorted_wrt[of "arr s1"] by simp
  qed
  have srt': "map value (arr s1) = map Num (sort ks)" if "xs = map Num ks" for ks
  proof -
    from that have "NaN \<notin> set xs" by auto
    from srt[OF this] ms that show ?thesis by (intro sorted_numbers) simp_all
  qed
  have "\<forall>b \<in> set (array ?last). state b = Sorted"
    by (auto simp: final_step_def)
  with g v srt srt' show ?thesis by simp
qed

theorem final_snapshot_sorted_witness:
  "\<exists>tr. generateSteps (map Num [19, 28, 37, 38, 39, 39, 8, 9]) = Inr tr
     \<and> map value (array (last tr)) = map Num [8, 9, 19, 28, 37, 38, 39, 39]
     \<and> sorted_wrt js_le (map value (array (last tr)))
     \<and> list_all (\<lambda>b. state b = Sorted) (array (last tr))"
proof -
  have ev: "map_sum id (\<lambda>tr. map value (array (last tr)))
              (generateSteps (map Num [19, 28, 37, 38, 39, 39, 8, 9]))
            = Inr (map Num [8, 9, 19, 28, 37, 38, 39, 39])"
    by code_simp
  have n: "NaN \<notin> set (map Num [19, 28, 37, 38, 39, 39, 8, 9])" by auto
  from final_snapshot_sorted[of "map Num [19, 28, 37, 38, 39, 39, 8, 9]"] obtain tr where
    tr: "generateSteps (map Num [19, 28, 37, 38, 39, 39, 8, 9]) = Inr tr"
      "\<forall>b \<in> set (array (last tr)). state b = Sorted"
      "NaN \<notin> set (map Num [19, 28, 37, 38, 39, 39, 8, 9])
         \<longrightarrow> sorted_wrt js_le (map value (array (last tr)))"
    by blast
  from tr(3) n have s: "sorted_wrt js_le (map value (array (last tr)))" by (rule mp)
  from ev tr(1) have "map value (array (last tr)) = map Num [8, 9, 19, 28, 37, 38, 39, 39]"
    by simp
  with tr(1,2) s show ?thesis by (intro exI[of _ tr]) (simp add: list_all_iff)
qed

text \<open>
  C1, as stated, fails: the input \<open>[NaN, 3, NaN, 1]\<close> ends as \<open>[1, NaN, 3, NaN]\<close>, every
  element tagged \<open>sorted\<close>, and \<open>1 <= NaN\<close> is false.
\<close>

theorem final_snapshot_unsorted_with_NaN:
  "map_sum id ((map value \<circ> array) \<circ> last) (generateSteps [NaN, Num 3, NaN, Num 1])
     = Inr [Num 1, NaN, Num 3, NaN]
   \<and> map_sum id ((map state \<circ> array) \<circ> last) (generateSteps [NaN, Num 3, NaN, Num 1])
     = Inr [Sorted, Sorted, Sorted, Sorted]
   \<and> \<not> sorted_wrt js_le [Num 1, NaN, Num 3, NaN]"
  by code_simp

text \<open>
  C2.  For every input (a \<open>NaN\<close> entry included), \<open>generateSteps\<close> returns a trace in
  which every snapshot has as many elements as the input, and the multiset of their values
  is the multiset of the input values.
\<close>

theorem snapshots_are_permutations:
  "\<exists>tr. generateSteps xs = Inr tr
     \<and> (\<forall>st \<in> set tr. length (array st) = length xs \<and> mset (map value (array st)) = mset xs)"
proof -
  obtain s1 :: Run and new where
    g: "generateSteps xs = Inr (initial_step (bars_of xs) # new @ [final_step (arr s1) (partitionCount s1)])"
    and m: "mset (arr s1) = mset (bars_of xs)"
    and n: "\<forall>st \<in> set new. permuted_step (mset (bars_of xs)) st"
    by (rule generateSteps_trace[of xs]) blast
  have v: "map value (bars_of xs) = xs" by (simp add: bars_of_def comp_def)
  have ok: "length a = length xs \<and> mset (map value a) = mset xs"
    if "image_mset value (mset a) = image_mset value (mset (bars_of xs))" for a :: "ArrayBar list"
  proof -
    from that have e: "mset (map value a) = mset xs" using v by (metis mset_map)
    from mset_eq_length[OF e] show ?thesis using e by simp
  qed
  have "length (array st) = length xs \<and> mset (map value (array st)) = mset xs"
    if "st \<in> set (initial_step (bars_of xs) # new @ [final_step (arr s1) (partitionCount s1)])" for st
  proof -
    from that consider "st = initial_step (bars_of xs)" | "st \<in> set new"
      | "st = final_step (arr s1) (partitionCount s1)" by auto
    then show ?thesis
    proof cases
      case 1
      then show ?thesis by (intro ok) (simp add: initial_step_def)
    next
      case 2
      with n show ?thesis by (intro ok) (simp add: permuted_step_def)
    next
      case 3
      have "image_mset value (mset (map (\<lambda>bar. bar\<lparr>state := Sorted\<rparr>) (arr s1)))
            = image_mset value (mset (arr s1))"
        by (simp add: multiset.map_comp comp_def)
      with 3 m show ?thesis by (intro ok) (simp add: final_step_def)
    qed
  qed
  with g show ?thesis by blast
qed

theorem snapshots_are_permutations_witness:
  "\<exists>tr. generateSteps [Num 3, Num 1, Num 2] = Inr tr \<and> length tr = 7
     \<and> list_all (\<lambda>st. length (array st) = 3
          \<and> mset (map value (array st)) = mset [Num 3, Num 1, Num 2]) tr"
proof -
  have ev: "map_sum id length (generateSteps [Num 3, Num 1, Num 2]) = Inr 7"
    by code_simp
  from snapshots_are_permutations[of "[Num 3, Num 1, Num 2]"] obtain tr where
    tr: "generateSteps [Num 3, Num 1, Num 2] = Inr tr"
      "\<forall>st \<in> set tr. length (array st) = length [Num 3, Num 1, Num 2]
          \<and> mset (map value (array st)) = mset [Num 3, Num 1, Num 2]"
    by blast
  from ev tr(1) have "length tr = 7" by simp
  with tr show ?thesis by (auto simp: list_all_iff)
qed




text \<open>
  C5.  \<open>quickSort(arr, low, high)\<close> with \<open>low \<ge> high\<close> returns at once, the run unchanged
  (no snapshot emitted, no exception); so for the empty input and for every one-element
  input \<open>generateSteps\<close> returns exactly two snapshots, the initial and the terminal one.
\<close>

theorem trivial_input_two_snapshots:
  "(high \<le> low \<longrightarrow> quickSort s low high = Inr s)
   \<and> (length xs \<le> 1
        \<longrightarrow> generateSteps xs = Inr [initial_step (bars_of xs), final_step (bars_of xs) 0])"
proof (intro conjI impI)
  assume "high \<le> low"
  then show "quickSort s low high = Inr s" by (simp add: quickSort.simps)
next
  assume "length xs \<le> 1"
  then have "\<not> 0 < int (length xs) - 1" by simp
  then show "generateSteps xs = Inr [initial_step (bars_of xs), final_step (bars_of xs) 0]"
    by (simp add: generateSteps_def Let_def bars_of_def quickSort.simps)
qed

theorem trivial_input_two_snapshots_witness:
  "quickSort \<lparr>arr = [], steps = [], partitionCount = 0\<rparr> 0 (- 1)
     = Inr \<lparr>arr = [], steps = [], partitionCount = 0\<rparr>
   \<and> generateSteps [] = Inr [initial_step [], final_step [] 0]
   \<and> generateSteps [Num 7] = Inr [initial_step (bars_of [Num 7]), final_step (bars_of [Num 7]) 0]"
  using trivial_input_two_snapshots[where high = "- 1" and low = 0 and xs = "[]"
        and s = "\<lparr>arr = [], steps = [], partitionCount = 0\<rparr>"]
    trivial_input_two_snapshots[where high = 0 and low = 0 and xs = "[Num 7]"]
  by (simp add: bars_of_def)

text \<open>
  C6.  For every input the first snapshot of the trace holds the input values in their
  original order, every element tagged \<open>default\<close>, \<open>pivotIndex = -1\<close> (the value for
  "none") and an empty \<open>comparing\<close>.
\<close>

theorem first_snapshot_default:
  "\<exists>tr. generateSteps xs = Inr tr
     \<and> map value (array (hd tr)) = xs
     \<and> map state (array (hd tr)) = replicate (length xs) Default
     \<and> pivotIndex (hd tr) = - 1 \<and> comparing (hd tr) = []"
proof -
  obtain s1 :: Run and new where
    "generateSteps xs = Inr (initial_step (bars_of xs) # new @ [final_step (arr s1) (partitionCount s1)])"
    by (rule generateSteps_trace[of xs])
  moreover have "map value (bars_of xs) = xs" "map state (bars_of xs) = replicate (length xs) Default"
    by (simp_all add: bars_of_def comp_def map_replicate_const)
  ultimately show ?thesis by (simp add: initial_step_def)
qed



text \<open>
  C8.  In one round of the loop the boundary index \<open>i\<close> stays or grows by one.  From any
  point of the loop with \<open>i < j \<le> high\<close> it ends with \<open>i \<le> i' \<le> high - 1\<close>.  In a
  partition pass (\<open>low < high\<close>) the loop is entered with \<open>i = low - 1\<close> and \<open>j = low\<close>, the
  final index satisfies \<open>low - 1 \<le> i' \<le> high - 1\<close>, and the closing exchange puts the
  pivot bar (the one that was at \<open>high\<close>) at \<open>i' + 1\<close>, the \<open>pivotIndex\<close> of the
  pivot-placed snapshot.
\<close>

theorem boundary_index_bounds:
  "(loop_body low high pivot i j s = Inr (i', s') \<longrightarrow> i \<le> i' \<and> i' \<le> i + 1)
   \<and> (loop low high pivot i j s = Inr (i', s') \<and> i < j \<and> j \<le> high
        \<longrightarrow> i \<le> i' \<and> i' \<le> high - 1)
   \<and> (quickSort_partition s low high = Inr (i', s') \<and> low < high
        \<longrightarrow> (\<exists>s2 s3. loop low high (value (arr s ! nat high)) (low - 1) low s2 = Inr (i', s3)
                \<and> arr s' = swap (arr s3) (i' + 1) high)
            \<and> low - 1 \<le> i' \<and> i' \<le> high - 1
            \<and> pivotIndex (last (steps s')) = i' + 1
            \<and> arr s' ! nat (i' + 1) = arr s ! nat high)"
proof (intro conjI impI)
  assume "loop_body low high pivot i j s = Inr (i', s')"
  from loop_body_boundary[OF this] show "i \<le> i'" "i' \<le> i + 1" by auto
next
  assume a: "loop low high pivot i j s = Inr (i', s') \<and> i < j \<and> j \<le> high"
  with loop_boundary[of low high pivot i j s i' s'] show "i \<le> i'" "i' \<le> high - 1" by auto
next
  assume a: "quickSort_partition s low high = Inr (i', s') \<and> low < high"
  then have p: "quickSort_partition s low high = Inr (i', s')" and lh: "low < high" by auto
  let ?s2 = "push (partition_step (arr s) low high) (s\<lparr>partitionCount := partitionCount s + 1\<rparr>)"
  from p obtain s3 where
    h: "0 \<le> high" "high < int (length (arr s))" and
    l: "loop low high (value (arr s ! nat high)) (low - 1) low ?s2 = Inr (i', s3)" and
    s': "s' = push (placed_step (swap (arr s3) (i' + 1) high) (i' + 1) (value (arr s ! nat high))
                 (partitionCount s3)) (s3\<lparr>arr := swap (arr s3) (i' + 1) high\<rparr>)"
    by (auto simp: quickSort_partition_def Let_def bar_at_Inr split: sum.splits)
  from l s' show "\<exists>s2 s3. loop low high (value (arr s ! nat high)) (low - 1) low s2 = Inr (i', s3)
                \<and> arr s' = swap (arr s3) (i' + 1) high"
    by auto
  from quickSort_partition_boundary[OF p] lh show "low - 1 \<le> i'" "i' \<le> high - 1" by auto
  from s' show "pivotIndex (last (steps s')) = i' + 1" by (simp add: placed_step_def)
  from quickSort_partition_partitioned[OF p lh]
  show "arr s' ! nat (i' + 1) = arr s ! nat high" by simp
qed

theorem boundary_index_bounds_witness:
  "\<exists>s1 s'. loop_body 0 2 (Num 2) (- 1) 1
           \<lparr>arr = bars_of [Num 3, Num 1, Num 2], steps = [], partitionCount = 1\<rparr>
         = Inr (0, s1)
     \<and> quickSort_partition
           \<lparr>arr = bars_of [Num 3, Num 1, Num 2], steps = [], partitionCount = 0\<rparr> 0 2
         = Inr (0, s')
     \<and> pivotIndex (last (steps s')) = 1
     \<and> arr s' ! 1 = \<lparr>value = Num 2, state = Default\<rparr>
     \<and> map value (arr s') = [Num 1, Num 2, Num 3]"
proof -
  let ?s = "\<lparr>arr = bars_of [Num 3, Num 1, Num 2], steps = [], partitionCount = 1\<rparr>"
  let ?t = "\<lparr>arr = bars_of [Num 3, Num 1, Num 2], steps = [], partitionCount = 0\<rparr>"
  have "map_sum id fst (loop_body 0 2 (Num 2) (- 1) 1 ?s) = Inr 0"
    by code_simp
  then obtain s1 where b: "loop_body 0 2 (Num 2) (- 1) 1 ?s = Inr (0, s1)"
    by (cases "loop_body 0 2 (Num 2) (- 1) 1 ?s") auto
  have "map_sum id (\<lambda>(i, s'). (i, map value (arr s'))) (quickSort_partition ?t 0 2)
        = Inr (0, [Num 1, Num 2, Num 3])"
    by code_simp
  then obtain s' where p: "quickSort_partition ?t 0 2 = Inr (0, s')"
    and v: "map value (arr s') = [Num 1, Num 2, Num 3]"
    by (cases "quickSort_partition ?t 0 2") auto
  from boundary_index_bounds[where s = ?t and low = 0 and high = 2 and i' = 0 and s' = s'] p
  have "pivotIndex (last (steps s')) = 1" "arr s' ! nat (0 + 1) = arr ?t ! nat 2"
    by auto
  then have "pivotIndex (last (steps s')) = 1" "arr s' ! 1 = \<lparr>value = Num 2, state = Default\<rparr>"
    by (simp_all add: bars_of_def)
  with b p v show ?thesis by (intro exI[of _ s1] exI[of _ s']) simp
qed

text \<open>
  C9.  When \<open>arr[j].value <= pivot\<close> and the incremented boundary index equals \<open>j\<close>, the
  element is exchanged with itself: the working array is unchanged, a swap snapshot (line 4)
  is emitted all the same, its \<open>comparing\<close> is \<open>[j, j]\<close> and its description names the
  same value twice.
\<close>

theorem self_swap_snapshot:
  assumes "bar_at (arr s) j = Inr bj" "js_le (value bj) pivot" "i + 1 = j"
  shows "\<exists>s'. loop_body low high pivot i j s = Inr (j, s')
     \<and> arr s' = arr s
     \<and> length (steps s') = length (steps s) + 2
     \<and> activeLineNumber (last (steps s')) = 4
     \<and> array (last (steps s')) = arr s
     \<and> comparing (last (steps s')) = [j, j]
     \<and> description (last (steps s'))
         = ''Swapped '' @ number_str (value bj) @ '' and '' @ number_str (value bj)"
proof -
  from assms have "bar_at (arr s) (i + 1) = Inr bj" by simp
  from loop_body_swaps[OF assms(1,2) this, of low high] assms(3)
  show ?thesis by (simp add: swap_same swap_step_def)
qed

theorem self_swap_snapshot_witness:
  "\<exists>s'. loop_body 0 2 (Num 2) (- 1) 0
           \<lparr>arr = bars_of [Num 1, Num 3, Num 2], steps = [], partitionCount = 1\<rparr>
         = Inr (0, s')
     \<and> arr s' = bars_of [Num 1, Num 3, Num 2]
     \<and> comparing (last (steps s')) = [0, 0]
     \<and> description (last (steps s')) = ''Swapped 1 and 1''"
proof -
  let ?s = "\<lparr>arr = bars_of [Num 1, Num 3, Num 2], steps = [], partitionCount = 1\<rparr>"
  have h: "bar_at (arr ?s) 0 = Inr \<lparr>value = Num 1, state = Default\<rparr>"
    "js_le (value \<lparr>value = Num 1, state = Default\<rparr>) (Num 2)" "- 1 + 1 = (0::int)"
    by (simp_all add: bar_at_def bars_of_def)
  have n: "number_str (Num 1) = ''1''" by code_simp
  from self_swap_snapshot[OF h, of 0 2] n show ?thesis by auto
qed

text \<open>
  C10.  The tags of the working array stay \<open>default\<close>: a round of the loop, a partition pass
  and a whole call of \<open>quickSort\<close> each leave every bar of the working array tagged
  \<open>default\<close> if it was so before.  Hence in every trace each swap snapshot (line 4) and each
  pivot-placed snapshot (line 5) has all its elements tagged \<open>default\<close>, the placed pivot
  included.
\<close>

theorem working_array_tags_default:
  "(loop_body low high pivot i j s = Inr (i', s') \<and> (\<forall>b \<in> set (arr s). state b = Default)
      \<longrightarrow> (\<forall>b \<in> set (arr s'). state b = Default))
   \<and> (quickSort_partition s low high = Inr (i', s') \<and> low < high
        \<and> (\<forall>b \<in> set (arr s). state b = Default)
      \<longrightarrow> (\<forall>b \<in> set (arr s'). state b = Default))
   \<and> (quickSort s low high = Inr s'' \<and> (\<forall>b \<in> set (arr s). state b = Default)
      \<longrightarrow> (\<forall>b \<in> set (arr s''). state b = Default))
   \<and> (\<exists>tr. generateSteps xs = Inr tr
        \<and> (\<forall>st \<in> set tr. activeLineNumber st = 4 \<or> activeLineNumber st = 5
              \<longrightarrow> (\<forall>b \<in> set (array st). state b = Default)))"
proof (intro conjI impI)
  assume "loop_body low high pivot i j s = Inr (i', s') \<and> (\<forall>b \<in> set (arr s). state b = Default)"
  then show "\<forall>b \<in> set (arr s'). state b = Default"
    using loop_body_extends(1) extends_tags by blast
next
  assume "quickSort_partition s low high = Inr (i', s') \<and> low < high
        \<and> (\<forall>b \<in> set (arr s). state b = Default)"
  then show "\<forall>b \<in> set (arr s'). state b = Default"
    using quickSort_partition_extends extends_tags by blast
next
  assume "quickSort s low high = Inr s'' \<and> (\<forall>b \<in> set (arr s). state b = Default)"
  then show "\<forall>b \<in> set (arr s''). state b = Default"
    using quickSort_extends extends_tags by blast
next
  obtain s1 :: Run and new where
    g: "generateSteps xs = Inr (initial_step (bars_of xs) # new @ [final_step (arr s1) (partitionCount s1)])"
    and q: "quickSort \<lparr>arr = bars_of xs, steps = [initial_step (bars_of xs)], partitionCount = 0\<rparr>
          0 (int (length xs) - 1) = Inr s1"
    and m: "mset (arr s1) = mset (bars_of xs)"
    and n: "\<forall>st \<in> set new. permuted_step (mset (bars_of xs)) st"
    by (rule generateSteps_trace[of xs])
  have d: "\<forall>b \<in> set (bars_of xs). state b = Default" by (auto simp: bars_of_def)
  have "\<forall>b \<in> set (array st). state b = Default"
    if st: "st \<in> set (initial_step (bars_of xs) # new @ [final_step (arr s1) (partitionCount s1)])"
      and ln: "activeLineNumber st = 4 \<or> activeLineNumber st = 5" for st
  proof -
    from st ln have "st \<in> set new" by (auto simp: initial_step_def final_step_def)
    with n ln have "mset (array st) = mset (bars_of xs)" by (auto simp: permuted_step_def)
    then have "set (array st) = set (bars_of xs)" by (rule mset_eq_setD)
    with d show ?thesis by simp
  qed
  with g show "\<exists>tr. generateSteps xs = Inr tr
        \<and> (\<forall>st \<in> set tr. activeLineNumber st = 4 \<or> activeLineNumber st = 5
              \<longrightarrow> (\<forall>b \<in> set (array st). state b = Default))"
    by blast
qed

theorem working_array_tags_default_witness:
  "\<exists>tr s'. generateSteps [Num 3, Num 1, Num 2] = Inr tr
     \<and> map (\<lambda>st. map state (array st))
          (filter (\<lambda>st. activeLineNumber st = 4 \<or> activeLineNumber st = 5) tr)
        = [[Default, Default, Default], [Default, Default, Default]]
     \<and> quickSort \<lparr>arr = bars_of [Num 3, Num 1, Num 2], steps = [], partitionCount = 0\<rparr> 0 2
        = Inr s'
     \<and> list_all (\<lambda>b. state b = Default) (arr s')"
proof -
  let ?t = "\<lparr>arr = bars_of [Num 3, Num 1, Num 2], steps = [], partitionCount = 0\<rparr>"
  have "map_sum id (\<lambda>s'. map value (arr s')) (quickSort ?t 0 2) = Inr [Num 1, Num 2, Num 3]"
    by code_simp
  then obtain s' where q: "quickSort ?t 0 2 = Inr s'"
    by (cases "quickSort ?t 0 2") auto
  have d: "\<forall>b \<in> set (arr ?t). state b = Default" by (simp add: bars_of_def)
  have ev: "map_sum id (\<lambda>tr. map (\<lambda>st. map state (array st))
          (filter (\<lambda>st. activeLineNumber st = 4 \<or> activeLineNumber st = 5) tr))
          (generateSteps [Num 3, Num 1, Num 2])
        = Inr [[Default, Default, Default], [Default, Default, Default]]"
    by code_simp
  note c = working_array_tags_default[where xs = "[Num 3, Num 1, Num 2]" and s = ?t and low = 0 and high = 2 and s'' = s'
        and pivot = NaN and i = 0 and j = 0 and i' = 0 and s' = s']
  from c q d have s': "\<forall>b \<in> set (arr s'). state b = Default" by blast
  from c obtain tr where tr: "generateSteps [Num 3, Num 1, Num 2] = Inr tr" by blast
  from ev tr have "map (\<lambda>st. map state (array st))
          (filter (\<lambda>st. activeLineNumber st = 4 \<or> activeLineNumber st = 5) tr)
        = [[Default, Default, Default], [Default, Default, Default]]"
    by simp
  with tr q s' show ?thesis by (intro exI[of _ tr] exI[of _ s']) (simp add: list_all_iff)
qed

end
